theory Spec2Isabelle
  imports Main
begin

text \<open>
  A shallow embedding of the dynamic tool identity and dispatch code of
  \<open>src/shortcuts.ts\<close>: the name sanitizer \<open>sanitizeShortcutName\<close>, the uniqueness resolver
  \<open>generateUniqueSanitizedName\<close>, the registry \<open>shortcutMap\<close> as \<open>listShortcuts\<close> fills it, and
  the handler of tool calls. The external command, the file system and the protocol
  transport are outside the embedding: \<open>listShortcuts\<close> takes what the command returned, and
  the handler returns the tool function it would call.
\<close>

section \<open>Strings and characters\<close>

text \<open>
  A JavaScript string is modelled as a \<^typ>\<open>string\<close>: a list of code units, each below 256
  (the Latin-1 range). \<open>.length\<close> is \<^const>\<open>length\<close>, \<open>substring(0, n)\<close> is
  \<^const>\<open>take\<close> (a negative \<open>n\<close> is clamped to 0 by JavaScript, as the truncating
  subtraction of \<^typ>\<open>nat\<close> does).
\<close>

definition code_unit :: "char \<Rightarrow> nat" where
  "code_unit c = of_char c"

text \<open>The character class \<open>[a-z0-9_]\<close> of the regular expressions in \<open>sanitizeShortcutName\<close>.\<close>

definition allowed_char :: "char \<Rightarrow> bool" where
  "allowed_char c \<longleftrightarrow>
     (97 \<le> code_unit c \<and> code_unit c \<le> 122) \<or>
     (48 \<le> code_unit c \<and> code_unit c \<le> 57) \<or>
     c = CHR ''_''"

text \<open>
  \<open>String.prototype.toLowerCase\<close> on code units below 256: \<open>A\<close>-\<open>Z\<close> and the accented
  capitals U+00C0 to U+00DE (without the multiplication sign U+00D7) move up by 32,
  every other code unit stays.
\<close>

definition toLowerCase_char :: "char \<Rightarrow> char" where
  "toLowerCase_char c =
     (if (65 \<le> code_unit c \<and> code_unit c \<le> 90) \<or>
         (192 \<le> code_unit c \<and> code_unit c \<le> 222 \<and> code_unit c \<noteq> 215)
      then char_of (code_unit c + 32) else c)"

definition toLowerCase :: "string \<Rightarrow> string" where
  "toLowerCase s = map toLowerCase_char s"

text \<open>\<open>.replace(/[^a-z0-9_]/g, "_")\<close>\<close>

definition replace_disallowed :: "string \<Rightarrow> string" where
  "replace_disallowed s = map (\<lambda>c. if allowed_char c then c else CHR ''_'') s"

text \<open>\<open>.replace(/_+/g, "_")\<close>: every maximal run of underscores becomes one underscore.\<close>

fun collapse_underscores :: "string \<Rightarrow> string" where
  "collapse_underscores [] = []"
| "collapse_underscores [c] = [c]"
| "collapse_underscores (c # d # cs) =
     (if c = CHR ''_'' \<and> d = CHR ''_'' then collapse_underscores (d # cs)
      else c # collapse_underscores (d # cs))"

text \<open>\<open>.replace(/_$/, "")\<close>: one underscore at the end of the string is removed.\<close>

definition strip_trailing :: "string \<Rightarrow> string" where
  "strip_trailing s = (if s \<noteq> [] \<and> last s = CHR ''_'' then butlast s else s)"

text \<open>
  \<open>.replace(/^_|_$/g, "")\<close>: scanning from the left, an underscore at position 0 is removed,
  then an underscore at the end of what is left of the input is removed.
\<close>

definition strip_leading :: "string \<Rightarrow> string" where
  "strip_leading s = (case s of [] \<Rightarrow> [] | c # cs \<Rightarrow> if c = CHR ''_'' then cs else s)"

definition strip_ends :: "string \<Rightarrow> string" where
  "strip_ends s = strip_trailing (strip_leading s)"

text \<open>Template literal \<open>`${counter}`\<close> of a non-negative integer below \<open>10^21\<close>: its decimal digits.\<close>

definition digit_char :: "nat \<Rightarrow> char" where
  "digit_char d = char_of (48 + d)"

fun string_of_nat :: "nat \<Rightarrow> string" where
  "string_of_nat n =
     (if n < 10 then [digit_char n] else string_of_nat (n div 10) @ [digit_char (n mod 10)])"

declare string_of_nat.simps [simp del]

section \<open>Name sanitizer (\<open>sanitizeShortcutName\<close>)\<close>

definition tool_prefix :: string where
  "tool_prefix = ''run_shortcut_''"

definition maxToolNameLength :: nat where
  "maxToolNameLength = 64"

definition maxSanitizedLength :: nat where
  "maxSanitizedLength = maxToolNameLength - length tool_prefix"

definition sanitizeShortcutName :: "string \<Rightarrow> string" where
  "sanitizeShortcutName name =
     (let sanitized = strip_ends (collapse_underscores (replace_disallowed (toLowerCase name)))
      in if length sanitized > maxSanitizedLength
         then strip_trailing (take maxSanitizedLength sanitized)
         else sanitized)"

section \<open>Uniqueness resolver (\<open>generateUniqueSanitizedName\<close>)\<close>

text \<open>
  \<open>counter\<close> is a JavaScript Number that starts at 1. \<open>counter++\<close> is exact up to \<open>2^53\<close>;
  at \<open>2^53\<close> the sum \<open>2^53 + 1\<close> is not representable and rounds back to \<open>2^53\<close>, so the
  counter stays there. It never holds a value above \<open>2^53\<close>, and its decimal form has at
  most 16 digits.
\<close>

definition counter_incr :: "nat \<Rightarrow> nat" where
  "counter_incr counter = (if counter < 2 ^ 53 then counter + 1 else counter)"

text \<open>The body of the \<open>while\<close> loop: the candidate built from the base and the counter.\<close>

definition next_candidate :: "string \<Rightarrow> nat \<Rightarrow> string" where
  "next_candidate baseSanitized counter =
     (let suffix = ''_'' @ string_of_nat counter;
          maxLength = 64 - length ''run_shortcut_''
      in if length baseSanitized + length suffix > maxLength
         then take (maxLength - length suffix) baseSanitized @ suffix
         else baseSanitized @ suffix)"

text \<open>
  The \<open>while (existingSanitizedNames.has(uniqueSanitized))\<close> loop. It need not end, so
  not returning is the value \<open>None\<close>.
\<close>

partial_function (option) unique_loop ::
  "string \<Rightarrow> string set \<Rightarrow> string \<Rightarrow> nat \<Rightarrow> string option" where
  "unique_loop baseSanitized existingSanitizedNames uniqueSanitized counter =
     (if uniqueSanitized \<in> existingSanitizedNames
      then unique_loop baseSanitized existingSanitizedNames
             (next_candidate baseSanitized counter) (counter_incr counter)
      else Some uniqueSanitized)"

definition generateUniqueSanitizedName :: "string \<Rightarrow> string set \<Rightarrow> string option" where
  "generateUniqueSanitizedName originalName existingSanitizedNames =
     (let baseSanitized = sanitizeShortcutName originalName
      in unique_loop baseSanitized existingSanitizedNames baseSanitized 1)"

section \<open>Identity registry (\<open>shortcutMap\<close> and \<open>listShortcuts\<close>)\<close>

text \<open>
  \<open>shortcutMap\<close> is a JavaScript \<open>Map\<close> from shortcut names to sanitized names. A \<open>Map\<close>
  iterates in insertion order, and the reverse lookup of the call handler depends on that
  order, so the map is an association list in insertion order. \<open>Map.prototype.set\<close>
  overwrites the value of a key that is present, in place, and appends a new key.
\<close>

type_synonym shortcut_map = "(string \<times> string) list"

fun map_set :: "string \<Rightarrow> string \<Rightarrow> shortcut_map \<Rightarrow> shortcut_map" where
  "map_set k v [] = [(k, v)]"
| "map_set k v ((k', v') # m) =
     (if k' = k then (k, v) # m else (k', v') # map_set k v m)"

text \<open>
  The \<open>shortcuts.forEach\<close> of \<open>listShortcuts\<close>: every name gets the token that
  \<open>generateUniqueSanitizedName\<close> returns for the tokens handed out so far in this call,
  the pair is stored with \<open>shortcutMap.set\<close>, and the token joins
  \<open>existingSanitizedNames\<close>. The map itself is never emptied.
\<close>

fun update_shortcut_map ::
  "string list \<Rightarrow> string set \<Rightarrow> shortcut_map \<Rightarrow> shortcut_map option" where
  "update_shortcut_map [] existingSanitizedNames shortcutMap = Some shortcutMap"
| "update_shortcut_map (name # names) existingSanitizedNames shortcutMap =
     (case generateUniqueSanitizedName name existingSanitizedNames of
        None \<Rightarrow> None
      | Some uniqueSanitizedName \<Rightarrow>
          update_shortcut_map names (insert uniqueSanitizedName existingSanitizedNames)
            (map_set name uniqueSanitizedName shortcutMap))"

text \<open>One refresh: \<open>existingSanitizedNames\<close> starts as \<open>new Set()\<close>.\<close>

definition refresh :: "string list \<Rightarrow> shortcut_map \<Rightarrow> shortcut_map option" where
  "refresh names shortcutMap = update_shortcut_map names {} shortcutMap"

text \<open>
  The lines of \<open>stdout\<close>: \<open>stdout.split("\n").filter((line) => line.trim()).map(trim)\<close>.
  \<open>trim\<close> removes white space and line terminators at both ends; below 256 these are
  the code units 9 to 13, 32 and 160.
\<close>

definition is_whitespace :: "char \<Rightarrow> bool" where
  "is_whitespace c \<longleftrightarrow>
     (9 \<le> code_unit c \<and> code_unit c \<le> 13) \<or> code_unit c = 32 \<or> code_unit c = 160"

definition trim :: "string \<Rightarrow> string" where
  "trim s = rev (dropWhile is_whitespace (rev (dropWhile is_whitespace s)))"

fun split_lines :: "string \<Rightarrow> string list" where
  "split_lines [] = [[]]"
| "split_lines (c # cs) =
     (if c = CHR 0x0A then [] # split_lines cs
      else (case split_lines cs of [] \<Rightarrow> [[c]] | l # ls \<Rightarrow> (c # l) # ls))"

definition shortcut_names :: "string \<Rightarrow> string list" where
  "shortcut_names stdout = map trim (filter (\<lambda>line. trim line \<noteq> []) (split_lines stdout))"

text \<open>The errors of the protocol: an \<open>McpError\<close> with its \<open>ErrorCode\<close> and message.\<close>

datatype mcp_error = MethodNotFound string | InvalidParams string | InternalError string

text \<open>What the callback of \<open>exec("shortcuts list", ...)\<close> receives.\<close>

record exec_result =
  error :: "string option"
  stdout :: string
  stderr :: string

text \<open>
  \<open>listShortcuts\<close> on the outcome of the external command: the promise is rejected on an
  error or on output on \<open>stderr\<close>, and the map is then left as it was; otherwise the map is
  updated and the promise resolves with the names.
\<close>

definition listShortcuts ::
  "exec_result \<Rightarrow> shortcut_map \<Rightarrow> ((mcp_error + string list) \<times> shortcut_map) option" where
  "listShortcuts r shortcutMap =
     (case error r of
        Some message \<Rightarrow>
          Some (Inl (InternalError (''Failed to list shortcuts: '' @ message)), shortcutMap)
      | None \<Rightarrow>
          if stderr r \<noteq> []
          then Some (Inl (InternalError (''Error listing shortcuts: '' @ stderr r)), shortcutMap)
          else (let shortcuts = shortcut_names (stdout r)
                in map_option (\<lambda>m. (Inr shortcuts, m)) (refresh shortcuts shortcutMap)))"

section \<open>Dynamic dispatcher (the \<open>CallToolRequestSchema\<close> handler)\<close>

text \<open>
  The reverse lookup of the handler:
  \<open>Array.from(shortcutMap.entries()).find(([_, value]) => value === sanitizedName)?.[0]\<close>,
  the name of the first entry, in insertion order, that holds the token.
\<close>

definition lookup_by_token :: "shortcut_map \<Rightarrow> string \<Rightarrow> string option" where
  "lookup_by_token shortcutMap sanitizedName =
     map_option fst (find (\<lambda>entry. snd entry = sanitizedName) shortcutMap)"

text \<open>
  The names of the tools that \<open>getDynamicShortcutTools\<close> publishes, one for every entry of
  the map, in insertion order.
\<close>

definition getDynamicShortcutTools :: "shortcut_map \<Rightarrow> string list" where
  "getDynamicShortcutTools shortcutMap =
     map (\<lambda>(shortcutName, sanitizedName). ''run_shortcut_'' @ sanitizedName) shortcutMap"

text \<open>
  \<open>name.startsWith(p)\<close> and \<open>name.replace(p, "")\<close> for a non-empty string \<open>p\<close>: the first
  occurrence of \<open>p\<close> is removed.
\<close>

definition startsWith :: "string \<Rightarrow> string \<Rightarrow> bool" where
  "startsWith s p \<longleftrightarrow> take (length p) s = p"

fun remove_first :: "string \<Rightarrow> string \<Rightarrow> string" where
  "remove_first p [] = []"
| "remove_first p (c # cs) =
     (if startsWith (c # cs) p then drop (length p) (c # cs) else c # remove_first p cs)"

text \<open>
  The arguments of a call are the string-valued fields of the request's \<open>arguments\<close> object.
  The handler hands the call on to one of the tool functions; which one, and with what,
  is the result of the dispatch.
\<close>

type_synonym tool_args = "(string \<times> string) list"

datatype tool_call =
    CallListShortcuts
  | CallOpenShortcut tool_args
  | CallRunShortcut tool_args
  | CallRunDynamic string "string option"

definition base_tools :: "string list" where
  "base_tools = [''list_shortcuts'', ''open_shortcut'', ''run_shortcut'']"

text \<open>
  The handler up to the call of the tool function. The first argument is the configuration
  flag \<open>GENERATE_SHORTCUT_TOOLS\<close>. An \<open>McpError\<close> thrown inside the \<open>try\<close> block is re-thrown
  unchanged by the \<open>catch\<close>. \<open>!shortcutName\<close> holds for \<open>undefined\<close> and for the empty string.
\<close>

definition callTool :: "bool \<Rightarrow> shortcut_map \<Rightarrow> string \<Rightarrow> tool_args \<Rightarrow> mcp_error + tool_call" where
  "callTool GENERATE_SHORTCUT_TOOLS shortcutMap name args =
     (let isBaseTool = (name \<in> set base_tools);
          isDynamicTool = (GENERATE_SHORTCUT_TOOLS \<and> startsWith name ''run_shortcut_'')
      in if \<not> isBaseTool \<and> \<not> isDynamicTool
         then Inl (MethodNotFound (''Unknown tool: '' @ name))
         else if name = ''list_shortcuts'' then Inr CallListShortcuts
         else if name = ''open_shortcut'' then Inr (CallOpenShortcut args)
         else if name = ''run_shortcut'' then Inr (CallRunShortcut args)
         else if isDynamicTool
         then (let sanitizedName = remove_first ''run_shortcut_'' name
               in case lookup_by_token shortcutMap sanitizedName of
                    None \<Rightarrow>
                      Inl (InvalidParams
                            (''No shortcut found for sanitized name: '' @ sanitizedName))
                  | Some shortcutName \<Rightarrow>
                      if shortcutName = []
                      then Inl (InvalidParams
                                 (''No shortcut found for sanitized name: '' @ sanitizedName))
                      else Inr (CallRunDynamic shortcutName (map_of args ''input'')))
         else Inl (MethodNotFound (''Unknown tool: '' @ name)))"

section \<open>Tool token constraints\<close>

text \<open>
  The constraints on a tool token: characters of \<open>[a-z0-9_]\<close> only (so no upper case),
  no two underscores in a row, no underscore at the start, none at the end.
\<close>

definition token_chars :: "string \<Rightarrow> bool" where
  "token_chars t = list_all allowed_char t"

fun no_double_underscore :: "string \<Rightarrow> bool" where
  "no_double_underscore [] = True"
| "no_double_underscore [c] = True"
| "no_double_underscore (c # d # cs) =
     (\<not> (c = CHR ''_'' \<and> d = CHR ''_'') \<and> no_double_underscore (d # cs))"

definition no_leading_underscore :: "string \<Rightarrow> bool" where
  "no_leading_underscore t = (case t of [] \<Rightarrow> True | c # cs \<Rightarrow> c \<noteq> CHR ''_'')"

definition no_trailing_underscore :: "string \<Rightarrow> bool" where
  "no_trailing_underscore t = (case rev t of [] \<Rightarrow> True | c # cs \<Rightarrow> c \<noteq> CHR ''_'')"

definition valid_token :: "string \<Rightarrow> bool" where
  "valid_token t \<longleftrightarrow>
     token_chars t \<and> no_double_underscore t \<and> no_leading_underscore t \<and>
     no_trailing_underscore t"

section \<open>Auxiliary predicates\<close>

text \<open>
  What holds of a result \<open>t\<close> of the loop started at candidate \<open>u\<close> and counter \<open>c\<close>: it is not
  taken, and it is \<open>u\<close> or the candidate of a counter value from \<open>c\<close> on.
\<close>

definition loop_post :: "string \<Rightarrow> string set \<Rightarrow> string \<Rightarrow> nat \<Rightarrow> string \<Rightarrow> bool" where
  "loop_post b ex u c t \<longleftrightarrow>
     (c \<le> 2 ^ 53 \<longrightarrow>
        t \<notin> ex \<and> (t = u \<or> (\<exists>k. c \<le> k \<and> k \<le> 2 ^ 53 \<and> t = next_candidate b k)))"

text \<open>
  The part of the base that a candidate keeps in front of its suffix:
  \<open>baseSanitized.substring(0, maxLength - suffix.length)\<close>, which is the whole base when the
  base and the suffix fit into the 51 characters.
\<close>

definition kept_base :: "string \<Rightarrow> nat \<Rightarrow> string" where
  "kept_base baseSanitized counter =
     take (51 - length (''_'' @ string_of_nat counter)) baseSanitized"

section \<open>The sanitizer: properties\<close>

lemma code_unit_underscore: "code_unit CHR ''_'' = 95"
  by (simp add: code_unit_def)

lemma allowed_toLowerCase: "allowed_char c \<Longrightarrow> toLowerCase_char c = c"
  by (auto simp: allowed_char_def toLowerCase_char_def code_unit_underscore)

lemma token_chars_replace: "token_chars (replace_disallowed s)"
  by (induction s) (auto simp: token_chars_def replace_disallowed_def allowed_char_def)

lemma token_chars_collapse: "token_chars s \<Longrightarrow> token_chars (collapse_underscores s)"
  by (induction s rule: collapse_underscores.induct) (auto simp: token_chars_def)

lemma collapse_Cons: "\<exists>ys. collapse_underscores (d # cs) = d # ys"
  by (induction cs arbitrary: d) auto

lemma no_double_collapse: "no_double_underscore (collapse_underscores s)"
proof (induction s rule: collapse_underscores.induct)
  case (3 c d cs)
  obtain ys where ys: "collapse_underscores (d # cs) = d # ys"
    using collapse_Cons by blast
  with 3 show ?case by auto
qed simp_all

lemma token_chars_tl: "token_chars (c # cs) \<Longrightarrow> token_chars cs"
  by (simp add: token_chars_def)

lemma token_chars_butlast: "token_chars s \<Longrightarrow> token_chars (butlast s)"
  by (auto simp: token_chars_def list_all_iff dest: in_set_butlastD)

lemma token_chars_take: "token_chars s \<Longrightarrow> token_chars (take n s)"
  by (auto simp: token_chars_def list_all_iff dest: in_set_takeD)

lemma token_chars_strip_leading: "token_chars s \<Longrightarrow> token_chars (strip_leading s)"
  by (auto simp: strip_leading_def token_chars_def split: list.splits)

lemma token_chars_strip_trailing: "token_chars s \<Longrightarrow> token_chars (strip_trailing s)"
  by (simp add: strip_trailing_def token_chars_butlast)

lemma no_double_tl: "no_double_underscore (c # cs) \<Longrightarrow> no_double_underscore cs"
  by (cases cs) auto

lemma no_double_take: "no_double_underscore s \<Longrightarrow> no_double_underscore (take n s)"
proof (induction s arbitrary: n rule: no_double_underscore.induct)
  case (3 c d cs)
  show ?case
  proof (cases n)
    case (Suc k)
    show ?thesis
    proof (cases k)
      case 0
      with Suc show ?thesis by simp
    next
      case (Suc j)
      have "no_double_underscore (take (Suc j) (d # cs))"
        using "3.IH" [of "Suc j"] "3.prems" by simp
      with Suc \<open>n = Suc k\<close> "3.prems" show ?thesis by simp
    qed
  qed simp
next
  case (2 c)
  then show ?case by (cases n) simp_all
qed simp

lemma no_double_butlast: "no_double_underscore s \<Longrightarrow> no_double_underscore (butlast s)"
  using no_double_take [of s "length s - 1"] by (simp add: butlast_conv_take)

lemma no_double_strip_leading: "no_double_underscore s \<Longrightarrow> no_double_underscore (strip_leading s)"
  by (auto simp: strip_leading_def split: list.splits dest: no_double_tl)

lemma no_double_strip_trailing: "no_double_underscore s \<Longrightarrow> no_double_underscore (strip_trailing s)"
  by (simp add: strip_trailing_def no_double_butlast)

lemma no_leading_strip_leading:
  "no_double_underscore s \<Longrightarrow> no_leading_underscore (strip_leading s)"
  by (cases s rule: no_double_underscore.cases)
     (auto simp: strip_leading_def no_leading_underscore_def)

lemma no_leading_take: "no_leading_underscore s \<Longrightarrow> no_leading_underscore (take n s)"
  by (cases s; cases n) (auto simp: no_leading_underscore_def)

lemma no_leading_butlast: "no_leading_underscore s \<Longrightarrow> no_leading_underscore (butlast s)"
  using no_leading_take [of s "length s - 1"] by (simp add: butlast_conv_take)

lemma no_leading_strip_trailing:
  "no_leading_underscore s \<Longrightarrow> no_leading_underscore (strip_trailing s)"
  by (simp add: strip_trailing_def no_leading_butlast)

lemma no_double_snoc:
  "no_double_underscore (s @ [c, CHR ''_'']) \<Longrightarrow> c \<noteq> CHR ''_''"
  by (induction s rule: no_double_underscore.induct) auto

lemma no_trailing_strip_trailing:
  assumes "no_double_underscore s"
  shows "no_trailing_underscore (strip_trailing s)"
proof (cases "s \<noteq> [] \<and> last s = CHR ''_''")
  case True
  then obtain b where s: "s = b @ [CHR ''_'']"
    by (metis append_butlast_last_id)
  show ?thesis
  proof (cases b rule: rev_cases)
    case Nil
    with s show ?thesis by (simp add: strip_trailing_def no_trailing_underscore_def)
  next
    case (snoc b' c)
    with s assms have "c \<noteq> CHR ''_''" using no_double_snoc [of b' c] by simp
    with s snoc show ?thesis
      by (simp add: strip_trailing_def no_trailing_underscore_def butlast_append)
  qed
next
  case False
  then show ?thesis
    by (cases s rule: rev_cases) (auto simp: strip_trailing_def no_trailing_underscore_def)
qed

lemma strip_trailing_length: "length (strip_trailing s) \<le> length s"
  by (simp add: strip_trailing_def)

lemma maxSanitizedLength_eq: "maxSanitizedLength = 51"
  by (simp add: maxSanitizedLength_def maxToolNameLength_def tool_prefix_def)

lemma sanitize_valid: "valid_token (sanitizeShortcutName s)"
proof -
  let ?a = "collapse_underscores (replace_disallowed (toLowerCase s))"
  have a: "token_chars ?a" "no_double_underscore ?a"
    by (simp_all add: token_chars_replace token_chars_collapse no_double_collapse)
  let ?b = "strip_ends ?a"
  have b: "token_chars ?b" "no_double_underscore ?b" "no_leading_underscore ?b"
          "no_trailing_underscore ?b"
    using a
    by (simp_all add: strip_ends_def token_chars_strip_leading token_chars_strip_trailing
          no_double_strip_leading no_double_strip_trailing no_leading_strip_leading
          no_leading_strip_trailing no_trailing_strip_trailing)
  let ?c = "strip_trailing (take maxSanitizedLength ?b)"
  have c: "token_chars ?c" "no_double_underscore ?c" "no_leading_underscore ?c"
          "no_trailing_underscore ?c"
    using b
    by (simp_all add: token_chars_take token_chars_strip_trailing no_double_take
          no_double_strip_trailing no_leading_take no_leading_strip_trailing
          no_trailing_strip_trailing)
  show ?thesis
    using b c by (simp add: sanitizeShortcutName_def Let_def valid_token_def)
qed

lemma sanitize_length: "length (sanitizeShortcutName s) \<le> maxSanitizedLength"
proof -
  have "length (strip_trailing (take maxSanitizedLength t)) \<le> maxSanitizedLength" for t
    using strip_trailing_length [of "take maxSanitizedLength t"] by simp
  then show ?thesis
    by (simp add: sanitizeShortcutName_def Let_def)
qed

lemma toLowerCase_id: "token_chars t \<Longrightarrow> toLowerCase t = t"
  by (simp add: toLowerCase_def token_chars_def list_all_iff allowed_toLowerCase map_idI)

lemma replace_disallowed_id: "token_chars t \<Longrightarrow> replace_disallowed t = t"
  by (simp add: replace_disallowed_def token_chars_def list_all_iff map_idI)

lemma collapse_id: "no_double_underscore t \<Longrightarrow> collapse_underscores t = t"
  by (induction t rule: collapse_underscores.induct) auto

lemma strip_leading_id: "no_leading_underscore t \<Longrightarrow> strip_leading t = t"
  by (auto simp: no_leading_underscore_def strip_leading_def split: list.splits)

lemma strip_trailing_id: "no_trailing_underscore t \<Longrightarrow> strip_trailing t = t"
  by (cases t rule: rev_cases) (auto simp: no_trailing_underscore_def strip_trailing_def)

lemma sanitize_fixed:
  assumes "valid_token t" "length t \<le> maxSanitizedLength"
  shows "sanitizeShortcutName t = t"
  using assms
  by (simp add: sanitizeShortcutName_def valid_token_def toLowerCase_id replace_disallowed_id
        collapse_id strip_ends_def strip_leading_id strip_trailing_id)

lemma sanitize_idem: "sanitizeShortcutName (sanitizeShortcutName s) = sanitizeShortcutName s"
  by (rule sanitize_fixed [OF sanitize_valid sanitize_length])

section \<open>The resolver: properties\<close>

lemma code_unit_digit: "d < 10 \<Longrightarrow> code_unit (digit_char d) = 48 + d"
  by (simp add: code_unit_def digit_char_def)

lemma digit_char_inj:
  assumes "d < 10" "e < 10" "digit_char d = digit_char e"
  shows "d = e"
proof -
  have "code_unit (digit_char d) = code_unit (digit_char e)"
    using assms(3) by (rule arg_cong)
  then have "48 + d = 48 + e"
    by (simp only: code_unit_digit [OF assms(1)] code_unit_digit [OF assms(2)])
  then show ?thesis by simp
qed

lemma digit_char_allowed: "d < 10 \<Longrightarrow> allowed_char (digit_char d)"
  by (simp add: allowed_char_def code_unit_digit)

lemma digit_char_not_underscore:
  assumes "d < 10"
  shows "digit_char d \<noteq> CHR ''_''"
proof
  assume "digit_char d = CHR ''_''"
  then have "code_unit (digit_char d) = code_unit CHR ''_''" by (rule arg_cong)
  then have "48 + d = 95"
    by (simp only: code_unit_digit [OF assms] code_unit_underscore)
  with assms show False by simp
qed

lemma string_of_nat_nonempty: "string_of_nat n \<noteq> []"
  by (subst string_of_nat.simps) simp

lemma string_of_nat_digits:
  "c \<in> set (string_of_nat n) \<Longrightarrow> \<exists>d<10. c = digit_char d"
proof (induction n rule: string_of_nat.induct)
  case (1 n)
  show ?case
  proof (cases "n < 10")
    case True
    with "1.prems" show ?thesis by (subst (asm) string_of_nat.simps) auto
  next
    case False
    with "1.prems" have "c \<in> set (string_of_nat (n div 10)) \<or> c = digit_char (n mod 10)"
      by (subst (asm) string_of_nat.simps) auto
    then show ?thesis
    proof
      assume "c \<in> set (string_of_nat (n div 10))"
      with "1.IH" False show ?thesis by simp
    next
      assume "c = digit_char (n mod 10)"
      then show ?thesis by (intro exI [of _ "n mod 10"]) simp
    qed
  qed
qed

lemma string_of_nat_allowed: "token_chars (string_of_nat n)"
  using string_of_nat_digits digit_char_allowed
  by (fastforce simp: token_chars_def list_all_iff)

lemma string_of_nat_no_underscore: "CHR ''_'' \<notin> set (string_of_nat n)"
proof
  assume "CHR ''_'' \<in> set (string_of_nat n)"
  then obtain d where "d < 10" "CHR ''_'' = digit_char d"
    using string_of_nat_digits by blast
  then show False using digit_char_not_underscore [of d] by simp
qed

lemma string_of_nat_length: "0 < k \<Longrightarrow> n < 10 ^ k \<Longrightarrow> length (string_of_nat n) \<le> k"
proof (induction n arbitrary: k rule: string_of_nat.induct)
  case (1 n)
  show ?case
  proof (cases "n < 10")
    case True
    with "1.prems" show ?thesis by (subst string_of_nat.simps) simp
  next
    case False
    with "1.prems" obtain j where k: "k = Suc j" "0 < j"
      by (cases k; cases "k - 1") auto
    with "1.prems" have "n div 10 < 10 ^ j"
      by (simp add: less_mult_imp_div_less mult.commute)
    with "1.IH" [of j] False k have "length (string_of_nat (n div 10)) \<le> j" by simp
    with False k show ?thesis by (subst string_of_nat.simps) simp
  qed
qed

lemma string_of_nat_inj: "string_of_nat m = string_of_nat n \<Longrightarrow> m = n"
proof (induction m arbitrary: n rule: string_of_nat.induct)
  case (1 m)
  show ?case
  proof (cases "m < 10")
    case m: True
    show ?thesis
    proof (cases "n < 10")
      case True
      with m "1.prems" show ?thesis
        by (subst (asm) string_of_nat.simps, subst (asm) (2) string_of_nat.simps)
           (simp add: digit_char_inj)
    next
      case False
      with m "1.prems" string_of_nat_nonempty [of "n div 10"] show ?thesis
        by (subst (asm) string_of_nat.simps, subst (asm) (2) string_of_nat.simps) simp
    qed
  next
    case m: False
    show ?thesis
    proof (cases "n < 10")
      case True
      with m "1.prems" string_of_nat_nonempty [of "m div 10"] show ?thesis
        by (subst (asm) string_of_nat.simps, subst (asm) (2) string_of_nat.simps) simp
    next
      case False
      with m "1.prems" have
        "string_of_nat (m div 10) = string_of_nat (n div 10)"
        "digit_char (m mod 10) = digit_char (n mod 10)"
        by (subst (asm) string_of_nat.simps, subst (asm) (2) string_of_nat.simps, simp)+
      with "1.IH" m have "m div 10 = n div 10" "m mod 10 = n mod 10"
        by (auto intro: digit_char_inj)
      then show ?thesis by (metis div_mult_mod_eq)
    qed
  qed
qed

lemma next_candidate_shape:
  "\<exists>n. next_candidate b k = take n b @ CHR ''_'' # string_of_nat k"
proof (cases "length b + length (''_'' @ string_of_nat k) > 64 - length ''run_shortcut_''")
  case True
  then show ?thesis
    unfolding next_candidate_def Let_def by (intro exI [of _ "51 - length (''_'' @ string_of_nat k)"]) simp
next
  case False
  then show ?thesis
    unfolding next_candidate_def Let_def by (intro exI [of _ "length b"]) simp
qed

lemma counter_digits:
  assumes "k \<le> 2 ^ 53"
  shows "length (string_of_nat k) \<le> 16"
proof -
  have "(2::nat) ^ 53 < 10 ^ 16" by simp
  with assms have "k < 10 ^ 16" by linarith
  then show ?thesis by (intro string_of_nat_length) simp_all
qed

lemma next_candidate_length:
  assumes "k \<le> 2 ^ 53"
  shows "length (next_candidate b k) \<le> 51"
  using counter_digits [OF assms]
  by (simp add: next_candidate_def Let_def)

lemma suffix_after_last_underscore:
  assumes "xs @ CHR ''_'' # ds = ys @ CHR ''_'' # es"
    and "CHR ''_'' \<notin> set ds" and "CHR ''_'' \<notin> set es"
  shows "ds = es"
proof -
  have r: "takeWhile (\<lambda>c. c \<noteq> CHR ''_'') (rev (zs @ CHR ''_'' # fs)) = rev fs"
    if "CHR ''_'' \<notin> set fs" for zs fs
  proof -
    have "takeWhile (\<lambda>c. c \<noteq> CHR ''_'') (rev fs @ CHR ''_'' # rev zs)
          = rev fs @ takeWhile (\<lambda>c. c \<noteq> CHR ''_'') (CHR ''_'' # rev zs)"
      by (rule takeWhile_append2) (use that in auto)
    then show ?thesis by simp
  qed
  have "rev ds = rev es"
    using r [OF assms(2), of xs] r [OF assms(3), of ys] assms(1) by simp
  then show ?thesis by simp
qed

lemma next_candidate_inj:
  assumes "next_candidate b j = next_candidate b k"
  shows "j = k"
proof -
  obtain m where m: "next_candidate b j = take m b @ CHR ''_'' # string_of_nat j"
    using next_candidate_shape by blast
  obtain n where n: "next_candidate b k = take n b @ CHR ''_'' # string_of_nat k"
    using next_candidate_shape by blast
  have "take m b @ CHR ''_'' # string_of_nat j = take n b @ CHR ''_'' # string_of_nat k"
    using assms m n by simp
  then have "string_of_nat j = string_of_nat k"
    by (rule suffix_after_last_underscore) (rule string_of_nat_no_underscore)+
  then show ?thesis by (rule string_of_nat_inj)
qed

lemma unique_loop_stop:
  "u \<notin> ex \<Longrightarrow> unique_loop b ex u c = Some u"
  by (subst unique_loop.simps) simp

lemma unique_loop_step:
  "u \<in> ex \<Longrightarrow> unique_loop b ex u c = unique_loop b ex (next_candidate b c) (counter_incr c)"
  by (subst unique_loop.simps) simp

lemma counter_incr_range: "1 \<le> c \<Longrightarrow> c \<le> 2 ^ 53 \<Longrightarrow> 1 \<le> counter_incr c \<and> counter_incr c \<le> 2 ^ 53"
  by (simp add: counter_incr_def)

lemma unique_loop_post:
  assumes "unique_loop b ex u c = Some t"
  shows "loop_post b ex u c t"
proof (rule unique_loop.raw_induct [where P = loop_post, OF _ assms])
  fix loop :: "string \<Rightarrow> string set \<Rightarrow> string \<Rightarrow> nat \<Rightarrow> string option"
  fix b ex u c t
  assume IH: "\<And>b ex u c t. loop b ex u c = Some t \<Longrightarrow> loop_post b ex u c t"
  assume eq: "(if u \<in> ex then loop b ex (next_candidate b c) (counter_incr c) else Some u) = Some t"
  show "loop_post b ex u c t"
  proof (cases "u \<in> ex")
    case False
    with eq show ?thesis by (simp add: loop_post_def)
  next
    case True
    with eq have "loop b ex (next_candidate b c) (counter_incr c) = Some t" by simp
    then have post: "loop_post b ex (next_candidate b c) (counter_incr c) t" by (rule IH)
    show ?thesis
      unfolding loop_post_def
    proof
      assume cle: "c \<le> 2 ^ 53"
      then have c: "c \<le> counter_incr c" and c': "counter_incr c \<le> 2 ^ 53"
        by (simp_all add: counter_incr_def)
      from post c' have t: "t \<notin> ex"
        and d: "t = next_candidate b c \<or>
                (\<exists>k. counter_incr c \<le> k \<and> k \<le> 2 ^ 53 \<and> t = next_candidate b k)"
        unfolding loop_post_def by blast+
      from d have "\<exists>k. c \<le> k \<and> k \<le> 2 ^ 53 \<and> t = next_candidate b k"
      proof
        assume "t = next_candidate b c"
        with cle show ?thesis by blast
      next
        assume "\<exists>k. counter_incr c \<le> k \<and> k \<le> 2 ^ 53 \<and> t = next_candidate b k"
        then obtain k where "counter_incr c \<le> k" "k \<le> 2 ^ 53" "t = next_candidate b k"
          by blast
        with c show ?thesis by (intro exI [of _ k]) simp
      qed
      with t show "t \<notin> ex \<and> (t = u \<or> (\<exists>k. c \<le> k \<and> k \<le> 2 ^ 53 \<and> t = next_candidate b k))"
        by simp
    qed
  qed
qed

lemma unique_loop_result:
  assumes "unique_loop b ex u c = Some t" "c \<le> 2 ^ 53"
  shows "t \<notin> ex" and "t = u \<or> (\<exists>k. c \<le> k \<and> k \<le> 2 ^ 53 \<and> t = next_candidate b k)"
  using unique_loop_post [OF assms(1)] assms(2) unfolding loop_post_def by blast+

lemma unique_loop_terminates:
  assumes "next_candidate b k \<notin> ex" "c \<le> k" "k \<le> 2 ^ 53"
  shows "\<exists>t. unique_loop b ex u c = Some t"
  using assms
proof (induction "k - c" arbitrary: c u)
  case 0
  then have ck: "c = k" by simp
  show ?case
  proof (cases "u \<in> ex")
    case False
    then show ?thesis by (simp add: unique_loop_stop)
  next
    case True
    then have "unique_loop b ex u c = unique_loop b ex (next_candidate b k) (counter_incr k)"
      using ck by (simp add: unique_loop_step)
    with 0(2) show ?thesis by (simp add: unique_loop_stop)
  qed
next
  case (Suc d)
  show ?case
  proof (cases "u \<in> ex")
    case False
    then show ?thesis by (simp add: unique_loop_stop)
  next
    case True
    from Suc have "c < 2 ^ 53" by linarith
    then have i: "counter_incr c = Suc c" by (simp add: counter_incr_def)
    have "\<exists>t. unique_loop b ex (next_candidate b c) (Suc c) = Some t"
      using Suc by (intro Suc(1)) auto
    with True i show ?thesis by (simp add: unique_loop_step)
  qed
qed

lemma free_candidate:
  assumes "finite ex" "card ex < 2 ^ 53"
  shows "\<exists>k. 1 \<le> k \<and> k \<le> 2 ^ 53 \<and> next_candidate b k \<notin> ex"
proof (rule ccontr)
  assume "\<not> ?thesis"
  then have sub: "next_candidate b ` {1..2 ^ 53} \<subseteq> ex" by auto
  have "inj_on (next_candidate b) {1..2 ^ 53}"
    by (auto intro!: inj_onI dest: next_candidate_inj)
  then have "card (next_candidate b ` {1..2 ^ 53}) = card {1..(2::nat) ^ 53}"
    by (rule card_image)
  also have "\<dots> = 2 ^ 53" by simp
  finally have "2 ^ 53 \<le> card ex"
    using card_mono [OF assms(1) sub] by simp
  with assms(2) show False by simp
qed

lemma next_candidate_exact:
  assumes "k \<le> 2 ^ 53"
  shows "\<exists>n. next_candidate b k = take n b @ CHR ''_'' # string_of_nat k \<and> 0 < n \<and>
             (length (next_candidate b k) < 51 \<longrightarrow> length b \<le> n)"
proof -
  let ?ls = "length (''_'' @ string_of_nat k)"
  have ls: "?ls \<le> 17" using counter_digits [OF assms] by simp
  show ?thesis
  proof (cases "length b + ?ls > 51")
    case True
    then have "next_candidate b k = take (51 - ?ls) b @ CHR ''_'' # string_of_nat k"
      by (simp add: next_candidate_def Let_def)
    moreover have "0 < 51 - ?ls" using ls by simp
    moreover have "length (next_candidate b k) = 51"
      using True ls by (simp add: next_candidate_def Let_def)
    ultimately show ?thesis by (intro exI [of _ "51 - ?ls"]) simp
  next
    case False
    then have "next_candidate b k = take (Suc (length b)) b @ CHR ''_'' # string_of_nat k"
      by (simp add: next_candidate_def Let_def)
    then show ?thesis by (intro exI [of _ "Suc (length b)"]) simp
  qed
qed

lemma no_double_no_underscore: "CHR ''_'' \<notin> set ds \<Longrightarrow> no_double_underscore ds"
  by (induction ds rule: no_double_underscore.induct) auto

lemma no_trailing_iff: "no_trailing_underscore t \<longleftrightarrow> t = [] \<or> last t \<noteq> CHR ''_''"
  by (cases t rule: rev_cases) (simp_all add: no_trailing_underscore_def)

lemma no_double_append:
  assumes "no_double_underscore xs" "no_double_underscore ys" "no_trailing_underscore xs"
  shows "no_double_underscore (xs @ ys)"
  using assms
proof (induction xs rule: no_double_underscore.induct)
  case 1
  then show ?case by simp
next
  case (2 c)
  then show ?case by (cases ys) (auto simp: no_trailing_iff)
next
  case (3 c d cs)
  then show ?case by (auto simp: no_trailing_iff)
qed

lemma token_chars_append: "token_chars (xs @ ys) \<longleftrightarrow> token_chars xs \<and> token_chars ys"
  by (simp add: token_chars_def)

lemma token_chars_underscore: "token_chars (CHR ''_'' # ds) \<longleftrightarrow> token_chars ds"
  by (simp add: token_chars_def allowed_char_def)

lemma no_trailing_digits: "no_trailing_underscore (xs @ CHR ''_'' # string_of_nat k)"
proof -
  obtain ds d where ds: "string_of_nat k = ds @ [d]"
    using string_of_nat_nonempty [of k] by (cases "string_of_nat k" rule: rev_cases) auto
  then have "d \<in> set (string_of_nat k)" by simp
  then have "d \<noteq> CHR ''_''" using string_of_nat_no_underscore [of k] by auto
  with ds show ?thesis by (simp add: no_trailing_underscore_def)
qed

lemma candidate_token_shape:
  assumes "k \<le> 2 ^ 53" "valid_token b"
  shows "token_chars (next_candidate b k)"
    and "no_trailing_underscore (next_candidate b k)"
    and "b \<noteq> [] \<Longrightarrow> no_leading_underscore (next_candidate b k)"
    and "length (next_candidate b k) < 51 \<Longrightarrow> no_double_underscore (next_candidate b k)"
proof -
  obtain n where n: "next_candidate b k = take n b @ CHR ''_'' # string_of_nat k" "0 < n"
    "length (next_candidate b k) < 51 \<longrightarrow> length b \<le> n"
    using next_candidate_exact [OF assms(1)] by blast
  from assms(2) have b: "token_chars b" "no_double_underscore b" "no_leading_underscore b"
    "no_trailing_underscore b" by (simp_all add: valid_token_def)
  show "token_chars (next_candidate b k)"
    using b(1) by (simp add: n(1) token_chars_append token_chars_underscore token_chars_take
        string_of_nat_allowed)
  show "no_trailing_underscore (next_candidate b k)"
    by (simp only: n(1) no_trailing_digits)
  show "no_leading_underscore (next_candidate b k)" if "b \<noteq> []"
    unfolding n(1) using that b(3) n(2) by (cases b; cases n) (auto simp: no_leading_underscore_def)
  show "no_double_underscore (next_candidate b k)" if "length (next_candidate b k) < 51"
  proof -
    from that n(3) have "take n b = b" by simp
    moreover have "no_double_underscore (CHR ''_'' # string_of_nat k)"
      using string_of_nat_no_underscore [of k] string_of_nat_nonempty [of k]
        no_double_no_underscore [of "string_of_nat k"]
      by (cases "string_of_nat k") auto
    ultimately show ?thesis
      using b(2,4) by (simp add: n(1) no_double_append)
  qed
qed

lemma resolve_result:
  assumes "generateUniqueSanitizedName name claimed = Some t"
  shows "t \<notin> claimed"
    and "t = sanitizeShortcutName name \<or>
         (sanitizeShortcutName name \<in> claimed \<and>
          (\<exists>k. 1 \<le> k \<and> k \<le> 2 ^ 53 \<and> t = next_candidate (sanitizeShortcutName name) k))"
proof -
  let ?b = "sanitizeShortcutName name"
  from assms have l: "unique_loop ?b claimed ?b 1 = Some t"
    by (simp add: generateUniqueSanitizedName_def Let_def)
  show "t \<notin> claimed" using unique_loop_result(1) [OF l] by simp
  show "t = ?b \<or> (?b \<in> claimed \<and> (\<exists>k. 1 \<le> k \<and> k \<le> 2 ^ 53 \<and> t = next_candidate ?b k))"
  proof (cases "?b \<in> claimed")
    case False
    with l show ?thesis by (simp add: unique_loop_stop)
  next
    case True
    with unique_loop_result(2) [OF l] show ?thesis by simp
  qed
qed

lemma resolve_returns:
  assumes "finite claimed" "card claimed < 2 ^ 53"
  shows "\<exists>t. generateUniqueSanitizedName name claimed = Some t"
proof -
  obtain k where "1 \<le> k" "k \<le> 2 ^ 53" "next_candidate (sanitizeShortcutName name) k \<notin> claimed"
    using free_candidate [OF assms] by blast
  then show ?thesis
    unfolding generateUniqueSanitizedName_def Let_def
    by (intro unique_loop_terminates [of _ k]) simp_all
qed

lemma next_candidate_kept:
  "next_candidate b k = kept_base b k @ ''_'' @ string_of_nat k"
  by (simp add: next_candidate_def kept_base_def Let_def)

lemma kept_base_prefix:
  assumes "k \<le> 2 ^ 53"
  shows "kept_base b k = [] \<longleftrightarrow> b = []"
proof -
  have "length (string_of_nat k) \<le> 16" by (rule counter_digits [OF assms])
  then have "0 < 51 - length (''_'' @ string_of_nat k)" by simp
  then show ?thesis by (simp add: kept_base_def)
qed

lemma no_double_mid:
  "\<not> no_double_underscore (xs @ CHR ''_'' # CHR ''_'' # ys)"
  by (induction xs rule: no_double_underscore.induct) auto

lemma no_double_suffixed:
  assumes "no_double_underscore kept"
  shows "no_double_underscore (kept @ ''_'' @ string_of_nat k) \<longleftrightarrow> no_trailing_underscore kept"
proof
  assume t: "no_trailing_underscore kept"
  have "no_double_underscore (CHR ''_'' # string_of_nat k)"
    using string_of_nat_no_underscore [of k] string_of_nat_nonempty [of k]
      no_double_no_underscore [of "string_of_nat k"]
    by (cases "string_of_nat k") auto
  with assms t show "no_double_underscore (kept @ ''_'' @ string_of_nat k)"
    by (simp add: no_double_append)
next
  assume d: "no_double_underscore (kept @ ''_'' @ string_of_nat k)"
  show "no_trailing_underscore kept"
  proof (rule ccontr)
    assume "\<not> no_trailing_underscore kept"
    then obtain xs where "kept = xs @ [CHR ''_'']"
      by (cases kept rule: rev_cases) (auto simp: no_trailing_iff)
    with d no_double_mid [of xs "string_of_nat k"] show False by simp
  qed
qed

lemma no_leading_suffixed:
  assumes "k \<le> 2 ^ 53" "no_leading_underscore b"
  shows "no_leading_underscore (kept_base b k @ ''_'' @ string_of_nat k) \<longleftrightarrow> b \<noteq> []"
proof (cases b)
  case Nil
  then show ?thesis by (simp add: kept_base_def no_leading_underscore_def)
next
  case (Cons c cs)
  have "0 < 51 - length (''_'' @ string_of_nat k)"
    using counter_digits [OF assms(1)] by simp
  then obtain n where "51 - length (''_'' @ string_of_nat k) = Suc n"
    by (cases "51 - length (''_'' @ string_of_nat k)") auto
  with Cons assms(2) show ?thesis
    by (simp add: kept_base_def no_leading_underscore_def)
qed

section \<open>The resolver at concrete inputs\<close>

lemma resolve_my_shortcut:
  "generateUniqueSanitizedName ''My Shortcut'' {''my_shortcut''} = Some ''my_shortcut_1''"
proof -
  have b: "sanitizeShortcutName ''My Shortcut'' = ''my_shortcut''" by code_simp
  have c: "next_candidate ''my_shortcut'' 1 = ''my_shortcut_1''" by code_simp
  have m: "''my_shortcut'' \<in> {''my_shortcut''}" "''my_shortcut_1'' \<notin> {''my_shortcut''}"
    by simp_all
  show ?thesis
    unfolding generateUniqueSanitizedName_def Let_def b
    by (simp only: unique_loop_step [OF m(1)] c unique_loop_stop [OF m(2)])
qed

lemma sanitize_long_underscore:
  "sanitizeShortcutName (replicate 50 CHR ''A'' @ '' Test'') = replicate 50 CHR ''a''"
  by code_simp

lemma resolve_empty_base:
  "generateUniqueSanitizedName ''@#$%'' {''''} = Some ''_1''"
proof -
  have b: "sanitizeShortcutName ''@#$%'' = ''''" by code_simp
  have c: "next_candidate '''' 1 = ''_1''" by code_simp
  have m: "'''' \<in> {''''}" "''_1'' \<notin> {''''}" by simp_all
  show ?thesis
    unfolding generateUniqueSanitizedName_def Let_def b
    by (simp only: unique_loop_step [OF m(1)] c unique_loop_stop [OF m(2)])
qed

lemma resolve_truncated_underscore:
  "generateUniqueSanitizedName (replicate 48 CHR ''a'' @ ''_bb'') {replicate 48 CHR ''a'' @ ''_bb''}
     = Some (replicate 48 CHR ''a'' @ ''__1'')"
proof -
  have b: "sanitizeShortcutName (replicate 48 CHR ''a'' @ ''_bb'') = replicate 48 CHR ''a'' @ ''_bb''"
    by code_simp
  have c: "next_candidate (replicate 48 CHR ''a'' @ ''_bb'') 1 = replicate 48 CHR ''a'' @ ''__1''"
    by code_simp
  have m: "replicate 48 CHR ''a'' @ ''_bb'' \<in> {replicate 48 CHR ''a'' @ ''_bb''}"
    "replicate 48 CHR ''a'' @ ''__1'' \<notin> {replicate 48 CHR ''a'' @ ''_bb''}"
    by code_simp+
  show ?thesis
    unfolding generateUniqueSanitizedName_def Let_def b
    by (simp only: unique_loop_step [OF m(1)] c unique_loop_stop [OF m(2)])
qed

section \<open>The registry: properties\<close>

lemma map_of_map_set: "map_of (map_set k v m) = (map_of m)(k \<mapsto> v)"
  by (induction m) (auto simp: fun_eq_iff)

lemma keys_map_set: "fst ` set (map_set k v m) = insert k (fst ` set m)"
proof (induction m)
  case Nil
  then show ?case by simp
next
  case (Cons e m)
  obtain k' v' where e: "e = (k', v')" by (cases e)
  show ?case
  proof (cases "k' = k")
    case True
    with e show ?thesis by simp
  next
    case False
    with e Cons.IH show ?thesis by (simp add: insert_commute)
  qed
qed

lemma distinct_keys_map_set:
  "distinct (map fst m) \<Longrightarrow> distinct (map fst (map_set k v m))"
proof (induction m)
  case Nil
  then show ?case by simp
next
  case (Cons e m)
  obtain k' v' where e: "e = (k', v')" by (cases e)
  show ?case
  proof (cases "k' = k")
    case True
    with Cons.prems e show ?thesis by simp
  next
    case False
    with Cons e keys_map_set [of k v m] show ?thesis by (auto simp: image_iff)
  qed
qed

lemma tokens_map_set: "snd ` set (map_set k v m) \<subseteq> insert v (snd ` set m)"
proof (induction m)
  case Nil
  then show ?case by simp
next
  case (Cons e m)
  obtain k' v' where e: "e = (k', v')" by (cases e)
  show ?case
  proof (cases "k' = k")
    case True
    with e show ?thesis by auto
  next
    case False
    have "snd ` set (map_set k v m) \<subseteq> insert v (insert v' (snd ` set m))"
      using Cons.IH by blast
    with False e show ?thesis by simp
  qed
qed

lemma distinct_tokens_map_set:
  "distinct (map snd m) \<Longrightarrow> v \<notin> snd ` set m \<Longrightarrow> distinct (map snd (map_set k v m))"
proof (induction m)
  case Nil
  then show ?case by simp
next
  case (Cons e m)
  obtain k' v' where e: "e = (k', v')" by (cases e)
  show ?case
  proof (cases "k' = k")
    case True
    with Cons.prems e show ?thesis by (auto simp: image_iff)
  next
    case False
    have "v' \<notin> snd ` set (map_set k v m)"
      using tokens_map_set [of k v m] Cons.prems e by (auto simp: image_iff)
    with False Cons e show ?thesis by (auto simp: image_iff)
  qed
qed

lemma update_shortcut_map_returns:
  "finite ex \<Longrightarrow> card ex + length ns < 2 ^ 53 \<Longrightarrow> \<exists>m'. update_shortcut_map ns ex m = Some m'"
proof (induction ns arbitrary: ex m)
  case Nil
  then show ?case by simp
next
  case (Cons n ns)
  from Cons.prems have "card ex < 2 ^ 53" by simp
  with Cons.prems(1) obtain u where u: "generateUniqueSanitizedName n ex = Some u"
    using resolve_returns by blast
  have "card (insert u ex) \<le> Suc (card ex)"
    using Cons.prems(1) by (simp add: card_insert_if)
  with Cons.prems have "card (insert u ex) + length ns < 2 ^ 53" by simp
  with Cons.IH [of "insert u ex" "map_set n u m"] Cons.prems(1) u show ?case by simp
qed

lemma update_shortcut_map_frame:
  "update_shortcut_map ns ex m = Some m' \<Longrightarrow> k \<notin> set ns \<Longrightarrow> map_of m' k = map_of m k"
proof (induction ns arbitrary: ex m)
  case Nil
  then show ?case by simp
next
  case (Cons n ns)
  then show ?case
    by (auto simp: map_of_map_set split: option.splits)
qed

lemma update_shortcut_map_same_tokens:
  "update_shortcut_map ns ex m = Some m' \<Longrightarrow> update_shortcut_map ns ex m0 = Some m0' \<Longrightarrow>
     k \<in> set ns \<Longrightarrow> map_of m' k = map_of m0' k"
proof (induction ns arbitrary: ex m m0)
  case Nil
  then show ?case by simp
next
  case (Cons n ns)
  from Cons.prems(1) obtain u where u: "generateUniqueSanitizedName n ex = Some u"
    and r: "update_shortcut_map ns (insert u ex) (map_set n u m) = Some m'"
    by (auto split: option.splits)
  from Cons.prems(2) u have r0: "update_shortcut_map ns (insert u ex) (map_set n u m0) = Some m0'"
    by simp
  show ?case
  proof (cases "k \<in> set ns")
    case True
    then show ?thesis by (rule Cons.IH [OF r r0])
  next
    case False
    with Cons.prems(3) have "k = n" by simp
    with False update_shortcut_map_frame [OF r] update_shortcut_map_frame [OF r0]
    show ?thesis by (simp add: map_of_map_set)
  qed
qed

lemma update_shortcut_map_keys:
  "update_shortcut_map ns ex m = Some m' \<Longrightarrow> fst ` set m' = fst ` set m \<union> set ns"
proof (induction ns arbitrary: ex m)
  case Nil
  then show ?case by simp
next
  case (Cons n ns)
  then show ?case
    by (auto simp: keys_map_set split: option.splits)
qed

lemma update_shortcut_map_distinct_keys:
  "update_shortcut_map ns ex m = Some m' \<Longrightarrow> distinct (map fst m) \<Longrightarrow> distinct (map fst m')"
proof (induction ns arbitrary: ex m)
  case Nil
  then show ?case by simp
next
  case (Cons n ns)
  then show ?case
    by (auto simp: distinct_keys_map_set split: option.splits)
qed

lemma update_shortcut_map_tokens:
  "update_shortcut_map ns ex m = Some m' \<Longrightarrow> distinct (map snd m) \<Longrightarrow> snd ` set m \<subseteq> ex \<Longrightarrow>
     distinct (map snd m')"
proof (induction ns arbitrary: ex m)
  case Nil
  then show ?case by simp
next
  case (Cons n ns)
  from Cons.prems(1) obtain u where u: "generateUniqueSanitizedName n ex = Some u"
    and r: "update_shortcut_map ns (insert u ex) (map_set n u m) = Some m'"
    by (auto split: option.splits)
  have "u \<notin> ex" by (rule resolve_result(1) [OF u])
  with Cons.prems(3) have "u \<notin> snd ` set m" by blast
  with Cons.prems(2) have d: "distinct (map snd (map_set n u m))"
    by (rule distinct_tokens_map_set)
  have "snd ` set (map_set n u m) \<subseteq> insert u ex"
    using tokens_map_set [of n u m] Cons.prems(3) by blast
  with d show ?case by (rule Cons.IH [OF r])
qed

lemma find_token:
  "distinct (map snd m) \<Longrightarrow> (n, t) \<in> set m \<Longrightarrow> find (\<lambda>entry. snd entry = t) m = Some (n, t)"
  by (induction m) (auto simp: image_iff)

lemma first_refresh_unique:
  assumes "refresh names [] = Some m"
  shows "distinct (map snd m)"
  using update_shortcut_map_tokens [of names "{}" "[]" m] assms by (simp add: refresh_def)

lemma first_refresh_round_trip:
  assumes "refresh names [] = Some m" "n \<in> set names"
  shows "\<exists>t. map_of m n = Some t \<and> lookup_by_token m t = Some n"
proof -
  from assms(1) have r: "update_shortcut_map names {} [] = Some m" by (simp add: refresh_def)
  have "n \<in> fst ` set m" using update_shortcut_map_keys [OF r] assms(2) by simp
  then obtain t where t: "map_of m n = Some t"
    by (metis map_of_eq_None_iff not_Some_eq)
  then have "(n, t) \<in> set m" by (rule map_of_SomeD)
  with first_refresh_unique [OF assms(1)] have "find (\<lambda>entry. snd entry = t) m = Some (n, t)"
    by (rule find_token)
  with t show ?thesis by (simp add: lookup_by_token_def)
qed

lemma refresh_returns:
  assumes "length names < 2 ^ 53"
  shows "\<exists>m'. refresh names m = Some m'"
  unfolding refresh_def using assms by (intro update_shortcut_map_returns) simp_all

lemma entries_map_of:
  "distinct (map fst m) \<Longrightarrow> (k, v) \<in> set m \<longleftrightarrow> map_of m k = Some v"
  by simp

lemma refresh_entries:
  assumes "distinct (map fst m)" "refresh names m = Some m'" "refresh names [] = Some fresh"
  shows "set m' = set fresh \<union> {e \<in> set m. fst e \<notin> set names}"
proof -
  from assms(2,3) have r: "update_shortcut_map names {} m = Some m'"
    and f: "update_shortcut_map names {} [] = Some fresh" by (simp_all add: refresh_def)
  have dm': "distinct (map fst m')"
    by (rule update_shortcut_map_distinct_keys [OF r assms(1)])
  have df: "distinct (map fst fresh)"
    using update_shortcut_map_distinct_keys [OF f] by simp
  have kf: "fst ` set fresh = set names"
    using update_shortcut_map_keys [OF f] by simp
  have "(k, v) \<in> set m' \<longleftrightarrow> (k, v) \<in> set fresh \<union> {e \<in> set m. fst e \<notin> set names}" for k v
  proof (cases "k \<in> set names")
    case True
    have eq: "map_of m' k = map_of fresh k"
      by (rule update_shortcut_map_same_tokens [OF r f True])
    have "(k, v) \<in> set m' \<longleftrightarrow> map_of m' k = Some v"
      by (rule entries_map_of [OF dm'])
    also have "\<dots> \<longleftrightarrow> map_of fresh k = Some v" by (simp only: eq)
    also have "\<dots> \<longleftrightarrow> (k, v) \<in> set fresh"
      by (rule entries_map_of [OF df, symmetric])
    finally show ?thesis using True by simp
  next
    case False
    have eq: "map_of m' k = map_of m k"
      by (rule update_shortcut_map_frame [OF r False])
    have nf: "(k, v) \<notin> set fresh" using kf False by (metis fst_conv image_eqI)
    have "(k, v) \<in> set m' \<longleftrightarrow> map_of m' k = Some v"
      by (rule entries_map_of [OF dm'])
    also have "\<dots> \<longleftrightarrow> map_of m k = Some v" by (simp only: eq)
    also have "\<dots> \<longleftrightarrow> (k, v) \<in> set m"
      by (rule entries_map_of [OF assms(1), symmetric])
    finally show ?thesis using False nf by simp
  qed
  then show ?thesis by auto
qed

lemma update_shortcut_map_resolved:
  "update_shortcut_map ns ex m = Some m' \<Longrightarrow>
     \<exists>toks. length toks = length ns \<and>
       (\<forall>i<length ns.
          generateUniqueSanitizedName (ns ! i) (ex \<union> set (take i toks)) = Some (toks ! i)) \<and>
       (\<forall>n. map_of m' n =
          (case map_of (rev (zip ns toks)) n of Some t \<Rightarrow> Some t | None \<Rightarrow> map_of m n))"
proof (induction ns arbitrary: ex m)
  case Nil
  then show ?case by simp
next
  case (Cons x xs)
  from Cons.prems obtain u where u: "generateUniqueSanitizedName x ex = Some u"
    and r: "update_shortcut_map xs (insert u ex) (map_set x u m) = Some m'"
    by (auto split: option.splits)
  from Cons.IH [OF r] obtain toks where len: "length toks = length xs"
    and res: "\<forall>i<length xs.
          generateUniqueSanitizedName (xs ! i) (insert u ex \<union> set (take i toks)) = Some (toks ! i)"
    and mp: "\<forall>n. map_of m' n =
          (case map_of (rev (zip xs toks)) n of Some t \<Rightarrow> Some t
           | None \<Rightarrow> map_of (map_set x u m) n)"
    by blast
  have "\<forall>i<length (x # xs).
          generateUniqueSanitizedName ((x # xs) ! i) (ex \<union> set (take i (u # toks)))
            = Some ((u # toks) ! i)"
  proof (intro allI impI)
    fix i assume i: "i < length (x # xs)"
    show "generateUniqueSanitizedName ((x # xs) ! i) (ex \<union> set (take i (u # toks)))
            = Some ((u # toks) ! i)"
    proof (cases i)
      case 0
      with u show ?thesis by simp
    next
      case (Suc j)
      with i res have "generateUniqueSanitizedName (xs ! j) (insert u ex \<union> set (take j toks))
                         = Some (toks ! j)" by simp
      with Suc show ?thesis by simp
    qed
  qed
  moreover have "\<forall>n. map_of m' n =
          (case map_of (rev (zip (x # xs) (u # toks))) n of Some t \<Rightarrow> Some t
           | None \<Rightarrow> map_of m n)"
    using mp by (auto simp: map_of_map_set map_add_def split: option.splits)
  ultimately show ?case using len by (intro exI [of _ "u # toks"]) simp
qed

lemma refresh_assigns_resolved_tokens:
  assumes "refresh names m = Some m'"
  shows "\<exists>toks. length toks = length names \<and>
           (\<forall>i<length names.
              generateUniqueSanitizedName (names ! i) (set (take i toks)) = Some (toks ! i)) \<and>
           (\<forall>n\<in>set names. \<exists>t. map_of (rev (zip names toks)) n = Some t \<and> map_of m' n = Some t)"
proof -
  from assms have "update_shortcut_map names {} m = Some m'" by (simp add: refresh_def)
  from update_shortcut_map_resolved [OF this] obtain toks where len: "length toks = length names"
    and res: "\<forall>i<length names.
          generateUniqueSanitizedName (names ! i) ({} \<union> set (take i toks)) = Some (toks ! i)"
    and mp: "\<forall>n. map_of m' n =
          (case map_of (rev (zip names toks)) n of Some t \<Rightarrow> Some t | None \<Rightarrow> map_of m n)"
    by blast
  have "\<exists>t. map_of (rev (zip names toks)) n = Some t \<and> map_of m' n = Some t"
    if "n \<in> set names" for n
  proof -
    have "n \<in> fst ` set (rev (zip names toks))"
    proof -
      have "fst ` set (zip names toks) = set names"
        using len by (metis map_fst_zip set_map)
      with that show ?thesis by simp
    qed
    then obtain t where "map_of (rev (zip names toks)) n = Some t"
      by (metis map_of_eq_None_iff not_Some_eq)
    with mp show ?thesis by simp
  qed
  with len res show ?thesis by (intro exI [of _ toks]) simp
qed

lemma resolve_unclaimed:
  "sanitizeShortcutName name \<notin> claimed \<Longrightarrow>
     generateUniqueSanitizedName name claimed = Some (sanitizeShortcutName name)"
  by (simp add: generateUniqueSanitizedName_def unique_loop_stop)

lemma sanitize_examples:
  "sanitizeShortcutName ''Timer'' = ''timer''"
  "sanitizeShortcutName ''timer'' = ''timer''"
  "sanitizeShortcutName ''Notes'' = ''notes''"
  by code_simp+

lemma refresh_Timer: "refresh [''Timer''] [] = Some [(''Timer'', ''timer'')]"
  by (simp add: refresh_def resolve_unclaimed sanitize_examples)

lemma refresh_timer_after_Timer:
  "refresh [''timer''] [(''Timer'', ''timer'')] = Some [(''Timer'', ''timer''), (''timer'', ''timer'')]"
  by (simp add: refresh_def resolve_unclaimed sanitize_examples)

lemma refresh_Notes_after_Timer:
  "refresh [''Notes''] [(''Timer'', ''timer'')] = Some [(''Timer'', ''timer''), (''Notes'', ''notes'')]"
  by (simp add: refresh_def resolve_unclaimed sanitize_examples)

lemma refresh_Notes: "refresh [''Notes''] [] = Some [(''Notes'', ''notes'')]"
  by (simp add: refresh_def resolve_unclaimed sanitize_examples)

section \<open>The dispatcher: properties\<close>

lemma remove_first_prefix:
  assumes "startsWith name p" "p \<noteq> []"
  shows "remove_first p name = drop (length p) name"
proof (cases name)
  case Nil
  with assms show ?thesis by (simp add: startsWith_def)
next
  case (Cons c cs)
  with assms show ?thesis by simp
qed

lemma prefixed_not_base_tool:
  assumes "startsWith name ''run_shortcut_''"
  shows "name \<notin> set base_tools"
proof
  assume "name \<in> set base_tools"
  then have "name = ''list_shortcuts'' \<or> name = ''open_shortcut'' \<or> name = ''run_shortcut''"
    by (simp add: base_tools_def)
  with assms show False by (auto simp: startsWith_def)
qed

lemma lookup_by_token_None:
  "lookup_by_token m t = None \<longleftrightarrow> t \<notin> snd ` set m"
  by (auto simp: lookup_by_token_def find_None_iff image_iff)

lemma callTool_not_found:
  assumes "name \<notin> set base_tools" "\<not> (gen \<and> startsWith name ''run_shortcut_'')"
  shows "callTool gen m name args = Inl (MethodNotFound (''Unknown tool: '' @ name))"
  using assms by (simp add: callTool_def Let_def)

lemma callTool_invalid_params:
  assumes "gen" "startsWith name ''run_shortcut_''"
    "drop (length ''run_shortcut_'') name \<notin> snd ` set m"
  shows "callTool gen m name args =
           Inl (InvalidParams (''No shortcut found for sanitized name: '' @
                               drop (length ''run_shortcut_'') name))"
proof -
  have nb: "name \<notin> set base_tools" by (rule prefixed_not_base_tool [OF assms(2)])
  then have ne: "name \<noteq> ''list_shortcuts''" "name \<noteq> ''open_shortcut''" "name \<noteq> ''run_shortcut''"
    by (auto simp: base_tools_def)
  have rf: "remove_first ''run_shortcut_'' name = drop (length ''run_shortcut_'') name"
    by (rule remove_first_prefix [OF assms(2)]) simp
  have "lookup_by_token m (drop (length ''run_shortcut_'') name) = None"
    using assms(3) by (simp add: lookup_by_token_None)
  then show ?thesis
    unfolding callTool_def Let_def rf using assms(1,2) nb ne by simp
qed

lemma names_examples:
  "shortcut_names (''Timer'' @ [CHR 0x0A]) = [''Timer'']"
  "shortcut_names (''timer'' @ [CHR 0x0A]) = [''timer'']"
  by code_simp+

lemma names_Notes: "shortcut_names (''Notes'' @ [CHR 0x0A]) = [''Notes'']"
  by code_simp

section \<open>The cases of the unit tests\<close>

text \<open>
  The expectations of the repository's tests of \<open>sanitizeShortcutName\<close> and
  \<open>generateUniqueSanitizedName\<close>, evaluated on the embedding.
\<close>

lemma sanitize_tests:
  "sanitizeShortcutName ''My Shortcut'' = ''my_shortcut''"
  "sanitizeShortcutName ''hello world'' = ''hello_world''"
  "sanitizeShortcutName ''hello@world#test'' = ''hello_world_test''"
  "sanitizeShortcutName ''hello___world'' = ''hello_world''"
  "sanitizeShortcutName ''_hello_world_'' = ''hello_world''"
  "sanitizeShortcutName ''test_123_abc'' = ''test_123_abc''"
  "sanitizeShortcutName '''' = ''''"
  "sanitizeShortcutName ''@#$%'' = ''''"
  "sanitizeShortcutName (replicate 60 CHR ''a'') = replicate 51 CHR ''a''"
  "sanitizeShortcutName (replicate 50 CHR ''a'' @ ''_test'') = replicate 50 CHR ''a''"
  "sanitizeShortcutName (replicate 51 CHR ''a'') = replicate 51 CHR ''a''"
  by code_simp+

lemma resolve_tests_unclaimed:
  "generateUniqueSanitizedName ''My Shortcut'' {} = Some ''my_shortcut''"
  "generateUniqueSanitizedName ''test'' {} = Some ''test''"
  "generateUniqueSanitizedName ''@#$%'' {} = Some ''''"
proof -
  have t: "sanitizeShortcutName ''test'' = ''test''" by code_simp
  show "generateUniqueSanitizedName ''My Shortcut'' {} = Some ''my_shortcut''"
    using resolve_unclaimed [of "''My Shortcut''" "{}"] by (simp add: sanitize_tests)
  show "generateUniqueSanitizedName ''test'' {} = Some ''test''"
    using resolve_unclaimed [of "''test''" "{}"] by (simp add: t)
  show "generateUniqueSanitizedName ''@#$%'' {} = Some ''''"
    using resolve_unclaimed [of "''@#$%''" "{}"] by (simp add: sanitize_tests)
qed

lemma resolve_test_third_conflict:
  "generateUniqueSanitizedName ''My Shortcut'' {''my_shortcut'', ''my_shortcut_1'', ''my_shortcut_2''}
     = Some ''my_shortcut_3''"
proof -
  define S where "S = {''my_shortcut'', ''my_shortcut_1'', ''my_shortcut_2''}"
  have cand: "next_candidate ''my_shortcut'' 1 = ''my_shortcut_1''"
    "next_candidate ''my_shortcut'' 2 = ''my_shortcut_2''"
    "next_candidate ''my_shortcut'' 3 = ''my_shortcut_3''"
    by code_simp+
  have incr: "counter_incr 1 = 2" "counter_incr 2 = 3"
    by (simp_all add: counter_incr_def)
  have taken: "''my_shortcut'' \<in> S" "''my_shortcut_1'' \<in> S" "''my_shortcut_2'' \<in> S"
    by (simp_all add: S_def)
  have free: "''my_shortcut_3'' \<notin> S" by (simp add: S_def)
  have "generateUniqueSanitizedName ''My Shortcut'' S = Some ''my_shortcut_3''"
    unfolding generateUniqueSanitizedName_def Let_def sanitize_tests
    by (simp only: unique_loop_step taken cand incr unique_loop_stop free not_False_eq_True)
  then show ?thesis by (simp add: S_def)
qed

lemma resolve_test_long_name:
  "generateUniqueSanitizedName (replicate 60 CHR ''a'') {replicate 51 CHR ''a''}
     = Some (replicate 49 CHR ''a'' @ ''_1'')"
proof -
  have c: "next_candidate (replicate 51 CHR ''a'') 1 = replicate 49 CHR ''a'' @ ''_1''"
    by code_simp
  have m: "replicate 51 CHR ''a'' \<in> {replicate 51 CHR ''a''}"
    "replicate 49 CHR ''a'' @ ''_1'' \<notin> {replicate 51 CHR ''a''}"
    by code_simp+
  show ?thesis
    unfolding generateUniqueSanitizedName_def Let_def sanitize_tests
    by (simp only: unique_loop_step [OF m(1)] c unique_loop_stop [OF m(2)])
qed

section \<open>Claims about the sanitizer\<close>

text \<open>
  Claim C5. For every input \<open>s\<close>, \<open>sanitizeShortcutName s\<close> holds only characters of
  \<open>[a-z0-9_]\<close>, has no underscore at its start or end, has no two underscores in a row and
  is at most 51 characters long, so that \<open>run_shortcut_\<close> followed by it is at most 64
  characters long.
\<close>

theorem sanitize_token_constraints:
  "token_chars (sanitizeShortcutName s) \<and>
   no_leading_underscore (sanitizeShortcutName s) \<and>
   no_trailing_underscore (sanitizeShortcutName s) \<and>
   no_double_underscore (sanitizeShortcutName s) \<and>
   length (sanitizeShortcutName s) \<le> 51 \<and>
   length (''run_shortcut_'' @ sanitizeShortcutName s) \<le> 64"
proof -
  have "valid_token (sanitizeShortcutName s)" by (rule sanitize_valid)
  moreover have "length (sanitizeShortcutName s) \<le> 51"
    using sanitize_length [of s] by (simp add: maxSanitizedLength_eq)
  ultimately show ?thesis by (simp add: valid_token_def)
qed

text \<open>
  The claim at a name whose sanitized form is cut at 51 characters and loses the underscore
  that the cut leaves at its end.
\<close>

theorem sanitize_token_constraints_witness:
  "sanitizeShortcutName (replicate 50 CHR ''A'' @ '' Test'') = replicate 50 CHR ''a'' \<and>
   token_chars (replicate 50 CHR ''a'') \<and>
   no_leading_underscore (replicate 50 CHR ''a'') \<and>
   no_trailing_underscore (replicate 50 CHR ''a'') \<and>
   no_double_underscore (replicate 50 CHR ''a'') \<and>
   length (replicate 50 CHR ''a'') \<le> (51::nat) \<and>
   length (''run_shortcut_'' @ replicate 50 CHR ''a'') \<le> (64::nat)"
  using sanitize_token_constraints [of "replicate 50 CHR ''A'' @ '' Test''"]
  by (simp add: sanitize_long_underscore)

text \<open>
  Claim C10. The sanitizer is idempotent: sanitizing its own output changes nothing.
\<close>

theorem sanitize_idempotent:
  "sanitizeShortcutName (sanitizeShortcutName s) = sanitizeShortcutName s"
proof -
  let ?t = "sanitizeShortcutName s"
  have "valid_token ?t" by (rule sanitize_valid)
  moreover have "length ?t \<le> maxSanitizedLength" by (rule sanitize_length)
  ultimately show "sanitizeShortcutName ?t = ?t" by (rule sanitize_fixed)
qed

theorem sanitize_idempotent_witness:
  "sanitizeShortcutName ''Hello@World#Test'' = ''hello_world_test'' \<and>
   sanitizeShortcutName ''hello_world_test'' = ''hello_world_test''"
proof -
  have e: "sanitizeShortcutName ''Hello@World#Test'' = ''hello_world_test''" by code_simp
  show ?thesis using sanitize_idempotent [of "''Hello@World#Test''"] by (simp add: e)
qed

section \<open>Claims about the resolver\<close>

text \<open>
  Claim C4, as stated: every token that \<open>generateUniqueSanitizedName\<close> produces is lower
  case, holds only \<open>[a-z0-9_]\<close>, has no two underscores in a row and no underscore at its
  start or end. It fails for tokens with a counter suffix: an empty base that is taken
  gives \<open>_1\<close>, and a base cut right after an underscore gives \<open>__1\<close>.
\<close>

theorem resolve_token_constraints_counterexample:
  "generateUniqueSanitizedName ''@#$%'' {''''} = Some ''_1'' \<and>
   \<not> no_leading_underscore ''_1'' \<and>
   generateUniqueSanitizedName (replicate 48 CHR ''a'' @ ''_bb'') {replicate 48 CHR ''a'' @ ''_bb''}
     = Some (replicate 48 CHR ''a'' @ ''__1'') \<and>
   \<not> no_double_underscore (replicate 48 CHR ''a'' @ ''__1'')"
proof -
  have "\<not> no_leading_underscore ''_1''" by (simp add: no_leading_underscore_def)
  moreover have "\<not> no_double_underscore (replicate 48 CHR ''a'' @ ''__1'')" by code_simp
  ultimately show ?thesis
    using resolve_empty_base resolve_truncated_underscore by simp
qed

text \<open>
  Claim C4, amended. Every token that \<open>generateUniqueSanitizedName\<close> produces holds only
  characters of \<open>[a-z0-9_]\<close> (so none in upper case) and has no underscore at its end. When
  the sanitized name is not taken, the token is the sanitized name and meets all four
  constraints. Otherwise the token is the kept part of the sanitized name followed by \<open>_\<close>
  and a counter from 1 to \<open>2^53\<close>; it has no underscore at its start unless the sanitized
  name is empty, and no two underscores in a row unless the kept part ends in an
  underscore.
\<close>

theorem resolve_token_shape:
  assumes "generateUniqueSanitizedName name claimed = Some t"
  shows "token_chars t \<and> no_trailing_underscore t \<and>
         (sanitizeShortcutName name \<notin> claimed \<and> t = sanitizeShortcutName name \<and> valid_token t \<or>
          sanitizeShortcutName name \<in> claimed \<and>
          (\<exists>k\<in>{1..2 ^ 53}.
             t = kept_base (sanitizeShortcutName name) k @ ''_'' @ string_of_nat k \<and>
             (no_leading_underscore t \<longleftrightarrow> sanitizeShortcutName name \<noteq> []) \<and>
             (no_double_underscore t \<longleftrightarrow>
                no_trailing_underscore (kept_base (sanitizeShortcutName name) k))))"
proof -
  let ?b = "sanitizeShortcutName name"
  have v: "valid_token ?b" by (rule sanitize_valid)
  show ?thesis
  proof (cases "?b \<in> claimed")
    case False
    then have "t = ?b" using assms resolve_unclaimed [OF False] by simp
    with v False show ?thesis by (simp add: valid_token_def)
  next
    case True
    with resolve_result(2) [OF assms] have
      "t = ?b \<or> (\<exists>k. 1 \<le> k \<and> k \<le> 2 ^ 53 \<and> t = next_candidate ?b k)" by blast
    moreover have "t \<noteq> ?b" using resolve_result(1) [OF assms] True by auto
    ultimately obtain k where k: "1 \<le> k" "k \<le> 2 ^ 53" and t: "t = next_candidate ?b k"
      by blast
    have shape: "t = kept_base ?b k @ ''_'' @ string_of_nat k"
      by (simp only: t next_candidate_kept)
    have "no_double_underscore (kept_base ?b k)"
      using v by (simp add: kept_base_def valid_token_def no_double_take)
    then have d: "no_double_underscore t \<longleftrightarrow> no_trailing_underscore (kept_base ?b k)"
      by (simp only: shape no_double_suffixed)
    have l: "no_leading_underscore t \<longleftrightarrow> ?b \<noteq> []"
      using v by (simp only: shape no_leading_suffixed [OF k(2)] valid_token_def)
    have c: "token_chars t" "no_trailing_underscore t"
      using candidate_token_shape(1,2) [OF k(2) v] by (simp_all add: t)
    have "k \<in> {1..2 ^ 53}" using k by simp
    with True shape d l c show ?thesis by blast
  qed
qed

text \<open>
  The amended claim at the name \<open>a\<close> 60 times with \<open>a\<close> 51 times taken: the base is cut to
  49 characters, the counter is 1, and the token of 51 characters meets all four
  constraints.
\<close>

theorem resolve_token_shape_witness:
  "generateUniqueSanitizedName (replicate 60 CHR ''a'') {replicate 51 CHR ''a''}
     = Some (replicate 49 CHR ''a'' @ ''_1'') \<and>
   sanitizeShortcutName (replicate 60 CHR ''a'') \<in> {replicate 51 CHR ''a''} \<and>
   sanitizeShortcutName (replicate 60 CHR ''a'') \<noteq> [] \<and>
   kept_base (sanitizeShortcutName (replicate 60 CHR ''a'')) 1 = replicate 49 CHR ''a'' \<and>
   token_chars (replicate 49 CHR ''a'' @ ''_1'') \<and>
   no_trailing_underscore (replicate 49 CHR ''a'' @ ''_1'') \<and>
   no_leading_underscore (replicate 49 CHR ''a'' @ ''_1'') \<and>
   no_double_underscore (replicate 49 CHR ''a'' @ ''_1'')"
proof -
  let ?n = "replicate 60 CHR ''a''"
  let ?t = "replicate 49 CHR ''a'' @ ''_1''"
  have b: "sanitizeShortcutName ?n = replicate 51 CHR ''a''" by (rule sanitize_tests)
  have one: "string_of_nat 1 = ''1''" by code_simp
  have kept: "kept_base (replicate 51 CHR ''a'') 1 = replicate 49 CHR ''a''" by code_simp
  have nt: "no_trailing_underscore (replicate 49 CHR ''a'')" by code_simp
  have differ: "?t \<noteq> replicate 51 CHR ''a''" by code_simp
  note shape = resolve_token_shape [OF resolve_test_long_name]
  from shape have c: "token_chars ?t" "no_trailing_underscore ?t" by simp_all
  from shape differ obtain k where k: "k \<in> {1..2 ^ 53}"
    and t: "?t = kept_base (replicate 51 CHR ''a'') k @ ''_'' @ string_of_nat k"
    and l: "no_leading_underscore ?t \<longleftrightarrow> replicate 51 CHR ''a'' \<noteq> []"
    and d: "no_double_underscore ?t \<longleftrightarrow> no_trailing_underscore (kept_base (replicate 51 CHR ''a'') k)"
    unfolding b by auto
  have "replicate 49 CHR ''a'' @ CHR ''_'' # ''1''
          = kept_base (replicate 51 CHR ''a'') k @ CHR ''_'' # string_of_nat k"
    using t by simp
  then have "''1'' = string_of_nat k"
    by (rule suffix_after_last_underscore) (simp_all add: string_of_nat_no_underscore)
  then have "k = 1" using string_of_nat_inj [of k 1] one by simp
  with d kept nt have "no_double_underscore ?t" by simp
  moreover from l have "no_leading_underscore ?t" by simp
  ultimately show ?thesis
    using c kept by (simp add: resolve_test_long_name b)
qed

text \<open>
  Claim C6. For every name and every set of claimed tokens, the token that
  \<open>generateUniqueSanitizedName\<close> returns is not in the set and is at most 51 characters
  long; and it does return one for every finite set of fewer than \<open>2^53\<close> tokens.
\<close>

theorem resolve_fresh_bounded:
  "(\<forall>t. generateUniqueSanitizedName name claimed = Some t \<longrightarrow>
        t \<notin> claimed \<and> length t \<le> 51) \<and>
   (finite claimed \<and> card claimed < 2 ^ 53 \<longrightarrow>
        (\<exists>t. generateUniqueSanitizedName name claimed = Some t))"
proof (intro conjI allI impI)
  fix t
  assume r: "generateUniqueSanitizedName name claimed = Some t"
  show "t \<notin> claimed" by (rule resolve_result(1) [OF r])
  from resolve_result(2) [OF r] show "length t \<le> 51"
    using sanitize_length [of name] next_candidate_length
    by (auto simp: maxSanitizedLength_eq)
next
  assume "finite claimed \<and> card claimed < 2 ^ 53"
  then show "\<exists>t. generateUniqueSanitizedName name claimed = Some t"
    using resolve_returns by blast
qed

theorem resolve_fresh_bounded_witness:
  "finite {''my_shortcut''} \<and> card {''my_shortcut''} < (2::nat) ^ 53 \<and>
   generateUniqueSanitizedName ''My Shortcut'' {''my_shortcut''} = Some ''my_shortcut_1'' \<and>
   ''my_shortcut_1'' \<notin> {''my_shortcut''} \<and> length ''my_shortcut_1'' \<le> (51::nat)"
  using resolve_fresh_bounded [where claimed = "{''my_shortcut''}" and name = "''My Shortcut''"]
  by (simp add: resolve_my_shortcut)

text \<open>
  Claim C7. For every name and every finite set of claimed tokens the loop ends: distinct
  counter values give distinct candidates, one of them is not claimed, and
  \<open>generateUniqueSanitizedName\<close> returns. The sets are those a \<open>Set\<close> can hold, with fewer
  than \<open>2^53\<close> tokens; up to there \<open>counter++\<close> is exact.
\<close>

theorem resolve_terminates:
  assumes "finite claimed" and "card claimed < 2 ^ 53"
  shows "inj (next_candidate (sanitizeShortcutName name)) \<and>
         (\<exists>k\<in>{1..2 ^ 53}. next_candidate (sanitizeShortcutName name) k \<notin> claimed) \<and>
         (\<exists>t. generateUniqueSanitizedName name claimed = Some t)"
proof -
  have "inj (next_candidate (sanitizeShortcutName name))"
    by (auto intro!: injI dest: next_candidate_inj)
  moreover have "\<exists>k\<in>{1..2 ^ 53}. next_candidate (sanitizeShortcutName name) k \<notin> claimed"
  proof -
    obtain k where "1 \<le> k" "k \<le> 2 ^ 53"
      "next_candidate (sanitizeShortcutName name) k \<notin> claimed"
      using free_candidate [OF assms] by blast
    then show ?thesis by (intro bexI [of _ k]) simp_all
  qed
  ultimately show ?thesis using resolve_returns [OF assms] by blast
qed

theorem resolve_terminates_witness:
  "finite {''my_shortcut''} \<and> card {''my_shortcut''} < (2::nat) ^ 53 \<and>
   inj (next_candidate (sanitizeShortcutName ''My Shortcut'')) \<and>
   generateUniqueSanitizedName ''My Shortcut'' {''my_shortcut''} = Some ''my_shortcut_1''"
  using resolve_terminates [where claimed = "{''my_shortcut''}" and name = "''My Shortcut''"]
  by (simp add: resolve_my_shortcut)

text \<open>
  Claim C8. With \<open>a\<close> 51 times and, for \<open>k\<close> from 1 to 9, \<open>a\<close> 49 times followed by \<open>_k\<close>
  claimed, the name \<open>a\<close> 60 times resolves to \<open>a\<close> 48 times followed by \<open>_10\<close>, a token of
  length 51.
\<close>

theorem collision_budget_scenario:
  "generateUniqueSanitizedName (replicate 60 CHR ''a'')
     {replicate 51 CHR ''a'',
      replicate 49 CHR ''a'' @ ''_1'', replicate 49 CHR ''a'' @ ''_2'',
      replicate 49 CHR ''a'' @ ''_3'', replicate 49 CHR ''a'' @ ''_4'',
      replicate 49 CHR ''a'' @ ''_5'', replicate 49 CHR ''a'' @ ''_6'',
      replicate 49 CHR ''a'' @ ''_7'', replicate 49 CHR ''a'' @ ''_8'',
      replicate 49 CHR ''a'' @ ''_9''}
   = Some (replicate 48 CHR ''a'' @ ''_10'') \<and>
   length (replicate 48 CHR ''a'' @ ''_10'') = 51"
proof -
  define S where "S =
     {replicate 51 CHR ''a'',
      replicate 49 CHR ''a'' @ ''_1'', replicate 49 CHR ''a'' @ ''_2'',
      replicate 49 CHR ''a'' @ ''_3'', replicate 49 CHR ''a'' @ ''_4'',
      replicate 49 CHR ''a'' @ ''_5'', replicate 49 CHR ''a'' @ ''_6'',
      replicate 49 CHR ''a'' @ ''_7'', replicate 49 CHR ''a'' @ ''_8'',
      replicate 49 CHR ''a'' @ ''_9''}"
  have base: "sanitizeShortcutName (replicate 60 CHR ''a'') = replicate 51 CHR ''a''"
    by code_simp
  have cand:
    "next_candidate (replicate 51 CHR ''a'') 1 = replicate 49 CHR ''a'' @ ''_1''"
    "next_candidate (replicate 51 CHR ''a'') 2 = replicate 49 CHR ''a'' @ ''_2''"
    "next_candidate (replicate 51 CHR ''a'') 3 = replicate 49 CHR ''a'' @ ''_3''"
    "next_candidate (replicate 51 CHR ''a'') 4 = replicate 49 CHR ''a'' @ ''_4''"
    "next_candidate (replicate 51 CHR ''a'') 5 = replicate 49 CHR ''a'' @ ''_5''"
    "next_candidate (replicate 51 CHR ''a'') 6 = replicate 49 CHR ''a'' @ ''_6''"
    "next_candidate (replicate 51 CHR ''a'') 7 = replicate 49 CHR ''a'' @ ''_7''"
    "next_candidate (replicate 51 CHR ''a'') 8 = replicate 49 CHR ''a'' @ ''_8''"
    "next_candidate (replicate 51 CHR ''a'') 9 = replicate 49 CHR ''a'' @ ''_9''"
    "next_candidate (replicate 51 CHR ''a'') 10 = replicate 48 CHR ''a'' @ ''_10''"
    by code_simp+
  have incr: "counter_incr 1 = 2" "counter_incr 2 = 3" "counter_incr 3 = 4"
    "counter_incr 4 = 5" "counter_incr 5 = 6" "counter_incr 6 = 7" "counter_incr 7 = 8"
    "counter_incr 8 = 9" "counter_incr 9 = 10"
    by (simp_all add: counter_incr_def)
  have taken: "replicate 51 CHR ''a'' \<in> S"
    "replicate 49 CHR ''a'' @ ''_1'' \<in> S" "replicate 49 CHR ''a'' @ ''_2'' \<in> S"
    "replicate 49 CHR ''a'' @ ''_3'' \<in> S" "replicate 49 CHR ''a'' @ ''_4'' \<in> S"
    "replicate 49 CHR ''a'' @ ''_5'' \<in> S" "replicate 49 CHR ''a'' @ ''_6'' \<in> S"
    "replicate 49 CHR ''a'' @ ''_7'' \<in> S" "replicate 49 CHR ''a'' @ ''_8'' \<in> S"
    "replicate 49 CHR ''a'' @ ''_9'' \<in> S"
    unfolding S_def by (simp_all only: insert_iff simp_thms)
  have free: "replicate 48 CHR ''a'' @ ''_10'' \<notin> S"
    unfolding S_def by code_simp
  have "generateUniqueSanitizedName (replicate 60 CHR ''a'') S
          = Some (replicate 48 CHR ''a'' @ ''_10'')"
    unfolding generateUniqueSanitizedName_def Let_def base
    by (simp only: unique_loop_step taken cand incr unique_loop_stop free not_False_eq_True)
  then show ?thesis by (simp add: S_def)
qed

section \<open>Claims about the registry\<close>

text \<open>
  Claim C1 says that a refresh clears the registry, so that afterwards its entries are
  exactly the assignments of the names of that refresh. The code at the sequence \<open>Timer\<close>,
  then \<open>Notes\<close> (the lines that \<open>shortcuts list\<close> prints at two calls of \<open>listShortcuts\<close>):
  the second call starts \<open>existingSanitizedNames\<close> empty, as for a rebuild, but does not
  empty \<open>shortcutMap\<close>; the entry of \<open>Timer\<close> stays, the registry is not the one that the
  same call gives on an empty registry, and \<open>run_shortcut_timer\<close> is still published. The
  names of a refresh do get the tokens that the resolver assigns in that refresh
  (\<open>refresh_assigns_resolved_tokens\<close>).
\<close>

theorem stale_entry_survives_refresh:
  "listShortcuts \<lparr>error = None, stdout = ''Timer'' @ [CHR 0x0A], stderr = []\<rparr> []
     = Some (Inr [''Timer''], [(''Timer'', ''timer'')]) \<and>
   listShortcuts \<lparr>error = None, stdout = ''Notes'' @ [CHR 0x0A], stderr = []\<rparr> [(''Timer'', ''timer'')]
     = Some (Inr [''Notes''], [(''Timer'', ''timer''), (''Notes'', ''notes'')]) \<and>
   listShortcuts \<lparr>error = None, stdout = ''Notes'' @ [CHR 0x0A], stderr = []\<rparr> []
     = Some (Inr [''Notes''], [(''Notes'', ''notes'')]) \<and>
   set [(''Timer'', ''timer''), (''Notes'', ''notes'')] \<noteq> set [(''Notes'', ''notes'')] \<and>
   (''Timer'', ''timer'') \<in> set [(''Timer'', ''timer''), (''Notes'', ''notes'')] \<and>
   getDynamicShortcutTools [(''Timer'', ''timer''), (''Notes'', ''notes'')]
     = [''run_shortcut_timer'', ''run_shortcut_notes'']"
  by (simp add: listShortcuts_def Let_def names_examples [simplified] names_Notes [simplified]
        refresh_Timer refresh_Notes_after_Timer refresh_Notes getDynamicShortcutTools_def)

text \<open>
  Claim C2 says that after any sequence of refreshes no two entries of the registry hold
  the same token. The code at the sequence \<open>Timer\<close>, then \<open>timer\<close> (the lines that
  \<open>shortcuts list\<close> prints at two calls of \<open>listShortcuts\<close>): the second refresh starts
  \<open>existingSanitizedNames\<close> empty while the entry of \<open>Timer\<close> is still in the map, and both
  entries end with the token \<open>timer\<close>. For a first refresh, of an empty registry, the tokens
  are distinct (\<open>first_refresh_unique\<close>).
\<close>

theorem stale_entry_duplicates_token:
  "listShortcuts \<lparr>error = None, stdout = ''Timer'' @ [CHR 0x0A], stderr = []\<rparr> []
     = Some (Inr [''Timer''], [(''Timer'', ''timer'')]) \<and>
   listShortcuts \<lparr>error = None, stdout = ''timer'' @ [CHR 0x0A], stderr = []\<rparr> [(''Timer'', ''timer'')]
     = Some (Inr [''timer''], [(''Timer'', ''timer''), (''timer'', ''timer'')]) \<and>
   \<not> distinct (map snd [(''Timer'', ''timer''), (''timer'', ''timer'')]) \<and>
   getDynamicShortcutTools [(''Timer'', ''timer''), (''timer'', ''timer'')]
     = [''run_shortcut_timer'', ''run_shortcut_timer'']"
  by (simp add: listShortcuts_def Let_def names_examples [simplified] refresh_Timer
        refresh_timer_after_Timer getDynamicShortcutTools_def)

text \<open>
  Claim C3 says that after a refresh the reverse lookup by the token of an enumerated name
  returns that name. The code at the same sequence: the second refresh gives \<open>timer\<close> the
  token \<open>timer\<close>, the lookup by that token finds the older entry first, and the call of
  \<open>run_shortcut_timer\<close> is routed to \<open>Timer\<close>. For a first refresh, of an empty registry,
  the round trip holds (\<open>first_refresh_round_trip\<close>).
\<close>

theorem stale_entry_shadows_lookup:
  "refresh [''Timer''] [] = Some [(''Timer'', ''timer'')] \<and>
   refresh [''timer''] [(''Timer'', ''timer'')]
     = Some [(''Timer'', ''timer''), (''timer'', ''timer'')] \<and>
   map_of [(''Timer'', ''timer''), (''timer'', ''timer'')] ''timer'' = Some ''timer'' \<and>
   lookup_by_token [(''Timer'', ''timer''), (''timer'', ''timer'')] ''timer'' = Some ''Timer'' \<and>
   callTool True [(''Timer'', ''timer''), (''timer'', ''timer'')] ''run_shortcut_timer'' []
     = Inr (CallRunDynamic ''Timer'' None)"
proof -
  have "callTool True [(''Timer'', ''timer''), (''timer'', ''timer'')] ''run_shortcut_timer'' []
     = Inr (CallRunDynamic ''Timer'' None)"
    by code_simp
  then show ?thesis
    by (simp add: refresh_Timer refresh_timer_after_Timer lookup_by_token_def)
qed

section \<open>Claims about the dispatcher\<close>

text \<open>
  Claim C9. A tool name that is neither one of the three fixed tools nor, with dynamic
  tools enabled, prefixed with \<open>run_shortcut_\<close> fails with a method-not-found error; a
  name with the prefix, dynamic tools enabled, whose remainder is the token of no entry of
  the registry fails with an invalid-parameters error.
\<close>

theorem callTool_unknown_token_fails:
  "(name \<notin> set base_tools \<and> \<not> (gen \<and> startsWith name ''run_shortcut_'') \<longrightarrow>
      callTool gen m name args = Inl (MethodNotFound (''Unknown tool: '' @ name))) \<and>
   (gen \<and> startsWith name ''run_shortcut_'' \<and>
    drop (length ''run_shortcut_'') name \<notin> snd ` set m \<longrightarrow>
      callTool gen m name args =
        Inl (InvalidParams (''No shortcut found for sanitized name: '' @
                            drop (length ''run_shortcut_'') name)))"
proof (intro conjI impI)
  assume "name \<notin> set base_tools \<and> \<not> (gen \<and> startsWith name ''run_shortcut_'')"
  then show "callTool gen m name args = Inl (MethodNotFound (''Unknown tool: '' @ name))"
    by (intro callTool_not_found) simp_all
next
  assume "gen \<and> startsWith name ''run_shortcut_'' \<and>
          drop (length ''run_shortcut_'') name \<notin> snd ` set m"
  then show "callTool gen m name args =
        Inl (InvalidParams (''No shortcut found for sanitized name: '' @
                            drop (length ''run_shortcut_'') name))"
    by (intro callTool_invalid_params) simp_all
qed

theorem callTool_unknown_token_fails_witness:
  "''stop_timer'' \<notin> set base_tools \<and> \<not> startsWith ''stop_timer'' ''run_shortcut_'' \<and>
   callTool True [(''Timer'', ''timer'')] ''stop_timer'' [] =
     Inl (MethodNotFound ''Unknown tool: stop_timer'') \<and>
   ''run_shortcut_timer'' \<notin> set base_tools \<and>
   callTool False [(''Timer'', ''timer'')] ''run_shortcut_timer'' [] =
     Inl (MethodNotFound ''Unknown tool: run_shortcut_timer'') \<and>
   startsWith ''run_shortcut_notes'' ''run_shortcut_'' \<and>
   ''notes'' \<notin> snd ` set [(''Timer'', ''timer'')] \<and>
   callTool True [(''Timer'', ''timer'')] ''run_shortcut_notes'' [] =
     Inl (InvalidParams ''No shortcut found for sanitized name: notes'')"
  using callTool_unknown_token_fails
          [where gen = True and m = "[(''Timer'', ''timer'')]" and name = "''stop_timer''"
             and args = "[]"]
        callTool_unknown_token_fails
          [where gen = False and m = "[(''Timer'', ''timer'')]" and name = "''run_shortcut_timer''"
             and args = "[]"]
        callTool_unknown_token_fails
          [where gen = True and m = "[(''Timer'', ''timer'')]" and name = "''run_shortcut_notes''"
             and args = "[]"]
  by (simp add: base_tools_def startsWith_def)

end
